theory Spec2Isabelle
  imports Main
begin

section \<open>Values of the task model\<close>

text \<open>
  JavaScript strings are \<open>string\<close>; an optional property (\<open>x?: T\<close>, possibly
  \<open>undefined\<close>) is \<open>T option\<close>. A test \<open>if (s)\<close> on an optional string
  succeeds when the string is present and not empty.
\<close>

definition truthy :: "string option \<Rightarrow> bool" where
  "truthy x = (case x of None \<Rightarrow> False | Some s \<Rightarrow> s \<noteq> [])"

text \<open>\<open>new Error(message)\<close>.\<close>

datatype js_error = Error string

text \<open>
  Modelled from the spec: the declaration of \<open>TaskStepOptions\<close> in \<open>task-model\<close>,
  which is not among the sources. A step may carry a name, its own environment
  overrides and a skip condition of its own.
\<close>

record TaskStepOptions =
  step_name :: "string option"
  step_env :: "(string \<times> string) list option"
  step_condition :: "string option"

text \<open>
  \<open>TaskStep\<close>: the options together with the four tags \<open>exec\<close>, \<open>spawn\<close>,
  \<open>say\<close> and \<open>builtin\<close>. The code never assigns to a property of a step
  object once it is built, so steps are values.
\<close>

record TaskStep = TaskStepOptions +
  step_exec :: "string option"
  step_spawn :: "string option"
  step_say :: "string option"
  step_builtin :: "string option"

text \<open>The default argument \<open>options = {}\<close>.\<close>

definition no_options :: TaskStepOptions where
  "no_options = \<lparr>step_name = None, step_env = None, step_condition = None\<rparr>"

text \<open>The object literals \<open>{ exec: command, ...options }\<close> and its siblings.\<close>

definition exec_step :: "string \<Rightarrow> TaskStepOptions \<Rightarrow> TaskStep" where
  "exec_step command options =
     \<lparr>step_name = step_name options, step_env = step_env options,
      step_condition = step_condition options,
      step_exec = Some command, step_spawn = None, step_say = None, step_builtin = None\<rparr>"

definition spawn_step :: "string \<Rightarrow> TaskStepOptions \<Rightarrow> TaskStep" where
  "spawn_step subtask_name options =
     \<lparr>step_name = step_name options, step_env = step_env options,
      step_condition = step_condition options,
      step_exec = None, step_spawn = Some subtask_name, step_say = None, step_builtin = None\<rparr>"

definition say_step :: "string \<Rightarrow> TaskStepOptions \<Rightarrow> TaskStep" where
  "say_step message options =
     \<lparr>step_name = step_name options, step_env = step_env options,
      step_condition = step_condition options,
      step_exec = None, step_spawn = None, step_say = Some message, step_builtin = None\<rparr>"

definition builtin_step :: "string \<Rightarrow> TaskStep" where
  "builtin_step builtin_name =
     \<lparr>step_name = None, step_env = None, step_condition = None,
      step_exec = None, step_spawn = None, step_say = None, step_builtin = Some builtin_name\<rparr>"

section \<open>The store of arrays and objects\<close>

text \<open>
  The step array \<open>_steps\<close> and the environment object \<open>_env\<close> of a task are
  mutated in place and handed out by reference, so they live in a store: a
  reference is an address, \<open>arrays\<close> gives the elements of the array at an
  address and \<open>objects\<close> the own properties of the object there. Addresses
  below \<open>next_ref\<close> are in use; allocation takes \<open>next_ref\<close> and moves it on.

  The objects are ordinary ones, with \<open>Object.prototype\<close> as their prototype:
  the \<open>{}\<close> of the constructor is, and so is an object literal or a parsed JSON
  object that a caller passes as \<open>props.env\<close>.
\<close>

type_synonym ref = nat

record store =
  arrays :: "ref \<Rightarrow> TaskStep list"
  objects :: "ref \<Rightarrow> (string \<rightharpoonup> string)"
  next_ref :: ref

definition alloc_array :: "TaskStep list \<Rightarrow> store \<Rightarrow> ref \<times> store" where
  "alloc_array xs s =
     (next_ref s, s\<lparr>arrays := (arrays s)(next_ref s := xs), next_ref := Suc (next_ref s)\<rparr>)"

definition alloc_object :: "(string \<rightharpoonup> string) \<Rightarrow> store \<Rightarrow> ref \<times> store" where
  "alloc_object ob s =
     (next_ref s, s\<lparr>objects := (objects s)(next_ref s := ob), next_ref := Suc (next_ref s)\<rparr>)"

text \<open>\<open>a.push(x)\<close>, \<open>a.unshift(x)\<close> and \<open>a.shift()\<close>.\<close>

definition array_push :: "ref \<Rightarrow> TaskStep \<Rightarrow> store \<Rightarrow> store" where
  "array_push a x s = s\<lparr>arrays := (arrays s)(a := arrays s a @ [x])\<rparr>"

definition array_unshift :: "ref \<Rightarrow> TaskStep \<Rightarrow> store \<Rightarrow> store" where
  "array_unshift a x s = s\<lparr>arrays := (arrays s)(a := x # arrays s a)\<rparr>"

definition array_shift :: "ref \<Rightarrow> store \<Rightarrow> store" where
  "array_shift a s = s\<lparr>arrays := (arrays s)(a := tl (arrays s a))\<rparr>"

text \<open>
  The assignment \<open>o[k] = v\<close> of a string \<open>v\<close>. It creates or updates the own
  property \<open>k\<close>, with one exception: for the name \<open>__proto__\<close>, when the
  object has no own property of that name, the assignment goes to the accessor
  inherited from \<open>Object.prototype\<close>, whose setter ignores a value that is
  neither an object nor \<open>null\<close>, and nothing is stored. (Every other property of
  \<open>Object.prototype\<close> is a writable data property, which an assignment
  shadows by an own property.)
\<close>

definition object_set :: "ref \<Rightarrow> string \<Rightarrow> string \<Rightarrow> store \<Rightarrow> store" where
  "object_set a k v s =
     (if k = ''__proto__'' \<and> objects s a k = None then s
      else s\<lparr>objects := (objects s)(a := (objects s a)(k \<mapsto> v))\<rparr>)"

section \<open>The class Task\<close>

text \<open>The constructor's \<open>props\<close>; \<open>env\<close> is a reference to the caller's object.\<close>

record TaskOptions =
  opt_description :: "string option"
  opt_env :: "ref option"
  opt_condition :: "string option"
  opt_cwd :: "string option"
  opt_requiredEnv :: "string list option"
  opt_exec :: "string option"

text \<open>The fields of a task; \<open>steps_ref\<close> is \<open>_steps\<close> and \<open>env_ref\<close> is \<open>_env\<close>.\<close>

record Task =
  name :: string
  condition :: "string option"
  steps_ref :: ref
  env_ref :: ref
  cwd :: "string option"
  requiredEnv :: "string list option"
  locked :: bool
  description :: "string option"

text \<open>
  The value \<open>_renderSpec\<close> returns, and the type of a manifest entry. In a rendered
  spec \<open>env\<close> and \<open>steps\<close> are references; in a manifest parsed from
  \<open>tasks.json\<close> they are data.
\<close>

record ('e, 's) TaskSpec =
  spec_name :: string
  spec_description :: "string option"
  spec_env :: 'e
  spec_requiredEnv :: "string list option"
  spec_steps :: 's
  spec_condition :: "string option"
  spec_cwd :: "string option"

text \<open>
  A method runs on the task and the store and either returns or throws; the
  task and the store it leaves behind are part of the result in both cases.
\<close>

datatype 'a outcome = Returned 'a | Threw js_error

type_synonym state = "Task \<times> store"

definition and_then ::
  "(state \<Rightarrow> unit outcome \<times> state) \<Rightarrow> (state \<Rightarrow> 'a outcome \<times> state) \<Rightarrow> state \<Rightarrow> 'a outcome \<times> state"
where
  "and_then f g ts =
     (case f ts of (Threw e, ts') \<Rightarrow> (Threw e, ts') | (Returned _, ts') \<Rightarrow> g ts')"

definition locked_message :: "string \<Rightarrow> string" where
  "locked_message n = ''Task '' @ [CHR 0x22] @ n @ [CHR 0x22] @ '' is locked for changes''"

definition assertUnlocked :: "state \<Rightarrow> unit outcome \<times> state" where
  "assertUnlocked ts =
     (if locked (fst ts) then (Threw (Error (locked_message (name (fst ts)))), ts)
      else (Returned (), ts))"

definition lock :: "state \<Rightarrow> unit outcome \<times> state" where
  "lock ts = (Returned (), ((fst ts)\<lparr>locked := True\<rparr>, snd ts))"

definition get_description :: "state \<Rightarrow> string option" where
  "get_description ts = description (fst ts)"

definition set_description :: "string option \<Rightarrow> state \<Rightarrow> unit outcome \<times> state" where
  "set_description desc ts = (Returned (), ((fst ts)\<lparr>description := desc\<rparr>, snd ts))"

definition exec :: "string \<Rightarrow> TaskStepOptions \<Rightarrow> state \<Rightarrow> unit outcome \<times> state" where
  "exec command options =
     and_then assertUnlocked
       (\<lambda>(t, s). (Returned (), (t, array_push (steps_ref t) (exec_step command options) s)))"

text \<open>The loop \<open>while (this._steps.length) { this._steps.shift(); }\<close>.\<close>

function shift_all :: "ref \<Rightarrow> store \<Rightarrow> store" where
  "shift_all a s = (if length (arrays s a) \<noteq> 0 then shift_all a (array_shift a s) else s)"
  by pat_completeness auto
termination
  by (relation "measure (\<lambda>(a, s). length (arrays s a))") (auto simp: array_shift_def)

declare shift_all.simps [simp del]

definition reset :: "string option \<Rightarrow> TaskStepOptions \<Rightarrow> state \<Rightarrow> unit outcome \<times> state" where
  "reset command options =
     and_then assertUnlocked
       (\<lambda>(t, s).
          let s' = shift_all (steps_ref t) s
          in if truthy command then exec (the command) options (t, s')
             else (Returned (), (t, s')))"

definition builtin :: "string \<Rightarrow> state \<Rightarrow> unit outcome \<times> state" where
  "builtin builtin_name =
     and_then assertUnlocked
       (\<lambda>(t, s). (Returned (), (t, array_push (steps_ref t) (builtin_step builtin_name) s)))"

definition say :: "string \<Rightarrow> TaskStepOptions \<Rightarrow> state \<Rightarrow> unit outcome \<times> state" where
  "say message options =
     and_then assertUnlocked
       (\<lambda>(t, s). (Returned (), (t, array_push (steps_ref t) (say_step message options) s)))"

definition spawn :: "Task \<Rightarrow> TaskStepOptions \<Rightarrow> state \<Rightarrow> unit outcome \<times> state" where
  "spawn subtask options =
     and_then assertUnlocked
       (\<lambda>(t, s). (Returned (), (t, array_push (steps_ref t) (spawn_step (name subtask) options) s)))"

definition prependExec :: "string \<Rightarrow> TaskStepOptions \<Rightarrow> state \<Rightarrow> unit outcome \<times> state" where
  "prependExec shell options =
     and_then assertUnlocked
       (\<lambda>(t, s). (Returned (), (t, array_unshift (steps_ref t) (exec_step shell options) s)))"

definition prepend :: "string \<Rightarrow> TaskStepOptions \<Rightarrow> state \<Rightarrow> unit outcome \<times> state" where
  "prepend shell options = and_then assertUnlocked (prependExec shell options)"

definition prependSpawn :: "Task \<Rightarrow> TaskStepOptions \<Rightarrow> state \<Rightarrow> unit outcome \<times> state" where
  "prependSpawn subtask options =
     and_then assertUnlocked
       (\<lambda>(t, s).
          (Returned (), (t, array_unshift (steps_ref t) (spawn_step (name subtask) options) s)))"

definition prependSay :: "string \<Rightarrow> TaskStepOptions \<Rightarrow> state \<Rightarrow> unit outcome \<times> state" where
  "prependSay message options =
     and_then assertUnlocked
       (\<lambda>(t, s). (Returned (), (t, array_unshift (steps_ref t) (say_step message options) s)))"

definition env :: "string \<Rightarrow> string \<Rightarrow> state \<Rightarrow> unit outcome \<times> state" where
  "env var_name val =
     and_then assertUnlocked
       (\<lambda>(t, s). (Returned (), (t, object_set (env_ref t) var_name val s)))"

text \<open>The getter \<open>steps\<close>: \<open>[...this._steps]\<close> is a new array with the same elements.\<close>

definition steps :: "state \<Rightarrow> ref \<times> state" where
  "steps ts =
     (let (a, s') = alloc_array (arrays (snd ts) (steps_ref (fst ts))) (snd ts)
      in (a, (fst ts, s')))"

definition renderSpec :: "state \<Rightarrow> (ref, ref) TaskSpec" where
  "renderSpec ts =
     \<lparr>spec_name = name (fst ts),
      spec_description = get_description ts,
      spec_env = env_ref (fst ts),
      spec_requiredEnv = requiredEnv (fst ts),
      spec_steps = steps_ref (fst ts),
      spec_condition = condition (fst ts),
      spec_cwd = cwd (fst ts)\<rparr>"

text \<open>
  The constructor. \<open>props.env ?? {}\<close> keeps the caller's object when there is one
  and makes a new empty object otherwise; \<open>[]\<close> is a new array.
\<close>

definition new_Task :: "string \<Rightarrow> TaskOptions \<Rightarrow> store \<Rightarrow> unit outcome \<times> state" where
  "new_Task task_name props s =
     (let (e, s1) = (case opt_env props of Some r \<Rightarrow> (r, s) | None \<Rightarrow> alloc_object Map.empty s);
          (a, s2) = alloc_array [] s1;
          t = \<lparr>name = task_name, condition = opt_condition props, steps_ref = a, env_ref = e,
               cwd = opt_cwd props, requiredEnv = opt_requiredEnv props, locked = False,
               description = opt_description props\<rparr>
      in if truthy (opt_exec props) then exec (the (opt_exec props)) no_options (t, s2)
         else (Returned (), (t, s2)))"

text \<open>What a task's step array and environment object hold.\<close>

definition steps_of :: "state \<Rightarrow> TaskStep list" where
  "steps_of ts = arrays (snd ts) (steps_ref (fst ts))"

definition env_of :: "state \<Rightarrow> (string \<rightharpoonup> string)" where
  "env_of ts = objects (snd ts) (env_ref (fst ts))"

section \<open>Calls on a task\<close>

text \<open>
  The calls a client can make on a task once it is constructed. A client that
  catches the error of a failed call goes on with the task and the store as the
  call left them.
\<close>

datatype call =
    Exec string TaskStepOptions
  | Spawn Task TaskStepOptions
  | Say string TaskStepOptions
  | Builtin string
  | Reset "string option" TaskStepOptions
  | Env string string
  | Prepend string TaskStepOptions
  | PrependExec string TaskStepOptions
  | PrependSpawn Task TaskStepOptions
  | PrependSay string TaskStepOptions
  | Lock
  | SetDescription "string option"
  | GetSteps

fun invoke :: "call \<Rightarrow> state \<Rightarrow> unit outcome \<times> state" where
  "invoke (Exec c opts) ts = exec c opts ts"
| "invoke (Spawn sub opts) ts = spawn sub opts ts"
| "invoke (Say msg opts) ts = say msg opts ts"
| "invoke (Builtin b) ts = builtin b ts"
| "invoke (Reset c opts) ts = reset c opts ts"
| "invoke (Env k v) ts = env k v ts"
| "invoke (Prepend c opts) ts = prepend c opts ts"
| "invoke (PrependExec c opts) ts = prependExec c opts ts"
| "invoke (PrependSpawn sub opts) ts = prependSpawn sub opts ts"
| "invoke (PrependSay msg opts) ts = prependSay msg opts ts"
| "invoke Lock ts = lock ts"
| "invoke (SetDescription d) ts = set_description d ts"
| "invoke GetSteps ts = (Returned (), snd (steps ts))"

fun invoke_all :: "call list \<Rightarrow> state \<Rightarrow> state" where
  "invoke_all [] ts = ts"
| "invoke_all (c # cs) ts = invoke_all cs (snd (invoke c ts))"

text \<open>The description a task has after some calls: the last one assigned, if any.\<close>

fun last_description :: "string option \<Rightarrow> call list \<Rightarrow> string option" where
  "last_description d [] = d"
| "last_description d (SetDescription d' # cs) = last_description d' cs"
| "last_description d (c # cs) = last_description d cs"

text \<open>
  The task's references point into the allocated part of the store, so that a
  later allocation is a different array or object.
\<close>

definition allocated :: "state \<Rightarrow> bool" where
  "allocated ts \<longleftrightarrow> steps_ref (fst ts) < next_ref (snd ts) \<and> env_ref (fst ts) < next_ref (snd ts)"

definition props_allocated :: "TaskOptions \<Rightarrow> store \<Rightarrow> bool" where
  "props_allocated props s \<longleftrightarrow> (case opt_env props of None \<Rightarrow> True | Some r \<Rightarrow> r < next_ref s)"

text \<open>A client's change to the array at \<open>a\<close>: push, pop, sort, splice, assignment to a slot.\<close>

definition mutate_array :: "ref \<Rightarrow> (TaskStep list \<Rightarrow> TaskStep list) \<Rightarrow> state \<Rightarrow> state" where
  "mutate_array a f ts = (fst ts, (snd ts)\<lparr>arrays := (arrays (snd ts))(a := f (arrays (snd ts) a))\<rparr>)"

section \<open>Inspecting a task from the command line\<close>

text \<open>
  What \<open>inspectTask\<close> and the command handler do to the outside, in order: lines
  on the console, calls to the task runtime, the error log and the exit of the
  process.
\<close>

datatype event =
    ConsoleLog string
  | TryFindTask string
  | RunTask string
  | LoggingError string
  | ProcessExit nat

text \<open>The two functions of the \<open>chalk\<close> library in use, as parameters.\<close>

record chalk =
  underline :: "string \<Rightarrow> string"
  bold :: "string \<Rightarrow> string"

type_synonym manifest_task = "((string \<times> string) list option, TaskStep list option) TaskSpec"

type_synonym manifest = "string \<rightharpoonup> manifest_task"

text \<open>
  Modelled from the spec: \<open>TaskRuntime.tryFindTask\<close> (\<open>task-runtime\<close> is not among
  the sources). The manifest is a mapping from task name to its rendered spec,
  and the lookup works purely against it.
\<close>

definition tryFindTask :: "manifest \<Rightarrow> string \<Rightarrow> manifest_task option" where
  "tryFindTask m task_name = m task_name"

definition writeln :: "nat \<Rightarrow> string \<Rightarrow> event" where
  "writeln indent s = ConsoleLog (replicate indent (CHR '' '') @ s)"

definition unresolved_message :: "string \<Rightarrow> string" where
  "unresolved_message n =
     n @ '': unable to resolve subtask with name '' @ [CHR 0x22] @ n @ [CHR 0x22]"

type_synonym inspection = "(event list \<times> js_error option) option"

definition after :: "event list \<Rightarrow> inspection \<Rightarrow> inspection" where
  "after pre r = (case r of None \<Rightarrow> None | Some (tr, e) \<Rightarrow> Some (pre @ tr, e))"

text \<open>
  The loop over the steps; \<open>rec\<close> is the recursive call of \<open>inspectTask\<close>. An
  error thrown by the recursive call ends the loop.
\<close>

fun for_steps ::
  "chalk \<Rightarrow> (string \<Rightarrow> nat \<Rightarrow> inspection) \<Rightarrow> nat \<Rightarrow> TaskStep list \<Rightarrow> inspection"
where
  "for_steps ch rec indent [] = Some ([], None)"
| "for_steps ch rec indent (step # rest) =
     (if truthy (step_spawn step) then
        (case rec (the (step_spawn step)) (indent + 2) of
           None \<Rightarrow> None
         | Some (tr, Some e) \<Rightarrow>
             Some (writeln indent (''- '' @ bold ch (the (step_spawn step))) # tr, Some e)
         | Some (tr, None) \<Rightarrow>
             after (writeln indent (''- '' @ bold ch (the (step_spawn step))) # tr)
               (for_steps ch rec indent rest))
      else if truthy (step_exec step) then
        after [writeln indent (''- exec: '' @ the (step_exec step))]
          (for_steps ch rec indent rest)
      else if truthy (step_builtin step) then
        after [writeln indent (''- builtin: '' @ the (step_builtin step))]
          (for_steps ch rec indent rest)
      else for_steps ch rec indent rest)"

text \<open>The lines for the description and the environment of a task.\<close>

definition description_lines :: "chalk \<Rightarrow> nat \<Rightarrow> manifest_task \<Rightarrow> event list" where
  "description_lines ch indent task =
     (if truthy (spec_description task)
      then [writeln indent (underline ch ''description'' @ '': '' @ the (spec_description task))]
      else [])"

definition env_lines :: "chalk \<Rightarrow> nat \<Rightarrow> manifest_task \<Rightarrow> event list" where
  "env_lines ch indent task =
     map (\<lambda>(k, v). writeln indent (underline ch ''env'' @ '': '' @ k @ ''='' @ v))
       (case spec_env task of None \<Rightarrow> [] | Some es \<Rightarrow> es)"

text \<open>
  \<open>inspectTask(name, indent)\<close>. The recursion follows the spawn steps of the
  manifest and need not end, so it runs on fuel: \<open>None\<close> is "out of fuel",
  \<open>Some (trace, None)\<close> a return and \<open>Some (trace, Some e)\<close> a throw, after
  the events of \<open>trace\<close>.
\<close>

primrec inspectTask :: "chalk \<Rightarrow> manifest \<Rightarrow> nat \<Rightarrow> string \<Rightarrow> nat \<Rightarrow> inspection" where
  "inspectTask ch m 0 = (\<lambda>task_name indent. None)"
| "inspectTask ch m (Suc fuel) = (\<lambda>task_name indent.
     (case tryFindTask m task_name of
        None \<Rightarrow> Some ([TryFindTask task_name], Some (Error (unresolved_message task_name)))
      | Some task \<Rightarrow>
          after (TryFindTask task_name # description_lines ch indent task @ env_lines ch indent task)
            (for_steps ch (inspectTask ch m fuel) indent
               (case spec_steps task of None \<Rightarrow> [] | Some xs \<Rightarrow> xs))))"

text \<open>
  The handler of a task's command; \<open>runTask\<close> is the runtime's method, which
  returns or throws.
\<close>

definition taskCommandHandler ::
  "chalk \<Rightarrow> manifest \<Rightarrow> (string \<Rightarrow> js_error option) \<Rightarrow> nat \<Rightarrow> string \<Rightarrow> bool \<Rightarrow> inspection"
where
  "taskCommandHandler ch m runTask fuel taskName inspect =
     (if inspect then inspectTask ch m fuel taskName 0
      else (case runTask taskName of
              None \<Rightarrow> Some ([RunTask taskName], None)
            | Some (Error msg) \<Rightarrow>
                Some ([RunTask taskName, LoggingError msg, ProcessExit 1], None)))"


text \<open>The events that leave the tasks alone: console output and manifest lookups.\<close>

fun read_only :: "event \<Rightarrow> bool" where
  "read_only (ConsoleLog s) = True"
| "read_only (TryFindTask n) = True"
| "read_only (RunTask n) = False"
| "read_only (LoggingError s) = False"
| "read_only (ProcessExit c) = False"


text \<open>
  The error that the loop body throws at a step: the one the inspection of the
  subtask of a spawn step throws, if any. The loop visits the steps in order
  up to and including the first step where the body throws, or all of them.
\<close>

definition step_error :: "(string \<Rightarrow> nat \<Rightarrow> inspection) \<Rightarrow> nat \<Rightarrow> TaskStep \<Rightarrow> js_error option"
where
  "step_error rec indent step =
     (if truthy (step_spawn step) then
        (case rec (the (step_spawn step)) (indent + 2) of None \<Rightarrow> None | Some (tr, e) \<Rightarrow> e)
      else None)"

definition visited_steps ::
  "(string \<Rightarrow> nat \<Rightarrow> inspection) \<Rightarrow> nat \<Rightarrow> TaskStep list \<Rightarrow> TaskStep list"
where
  "visited_steps rec indent xs =
     takeWhile (\<lambda>step. step_error rec indent step = None) xs @
     take 1 (dropWhile (\<lambda>step. step_error rec indent step = None) xs)"

section \<open>Example values\<close>

definition empty_store :: store where
  "empty_store = \<lparr>arrays = (\<lambda>a. []), objects = (\<lambda>a. Map.empty), next_ref = 0\<rparr>"

definition no_props :: TaskOptions where
  "no_props = \<lparr>opt_description = None, opt_env = None, opt_condition = None, opt_cwd = None,
     opt_requiredEnv = None, opt_exec = None\<rparr>"

text \<open>\<open>new Task("t")\<close> and \<open>new Task("t", { exec: "x" })\<close> in the empty store.\<close>

definition fresh_task :: state where
  "fresh_task = snd (new_Task ''t'' no_props empty_store)"

definition task_with_x :: state where
  "task_with_x = snd (new_Task ''t'' (no_props\<lparr>opt_exec := Some ''x''\<rparr>) empty_store)"

definition plain_chalk :: chalk where
  "plain_chalk = \<lparr>underline = (\<lambda>s. s), bold = (\<lambda>s. s)\<rparr>"

definition manifest_entry :: "string \<Rightarrow> TaskStep list \<Rightarrow> manifest_task" where
  "manifest_entry n xs =
     \<lparr>spec_name = n, spec_description = None, spec_env = Some [], spec_requiredEnv = None,
      spec_steps = Some xs, spec_condition = None, spec_cwd = None\<rparr>"


definition broken_manifest :: manifest where
  "broken_manifest =
     [''build'' \<mapsto> manifest_entry ''build''
        [exec_step ''echo step1'' no_options, spawn_step ''sub'' no_options,
         spawn_step ''post'' no_options],
      ''post'' \<mapsto> manifest_entry ''post'' [builtin_step ''release/tag-version'']]"

text \<open>A task that spawns itself.\<close>

definition loop_manifest :: manifest where
  "loop_manifest = [''a'' \<mapsto> manifest_entry ''a'' [spawn_step ''a'' no_options]]"

section \<open>Properties of the task model\<close>

lemma assertUnlocked_locked:
  "locked (fst ts) \<Longrightarrow> assertUnlocked ts = (Threw (Error (locked_message (name (fst ts)))), ts)"
  by (simp add: assertUnlocked_def)

lemma assertUnlocked_unlocked: "\<not> locked (fst ts) \<Longrightarrow> assertUnlocked ts = (Returned (), ts)"
  by (simp add: assertUnlocked_def)

lemma and_then_locked:
  "locked (fst ts) \<Longrightarrow> and_then assertUnlocked g ts = (Threw (Error (locked_message (name (fst ts)))), ts)"
  by (simp add: and_then_def assertUnlocked_locked)

lemma and_then_unlocked: "\<not> locked (fst ts) \<Longrightarrow> and_then assertUnlocked g ts = g ts"
  by (simp add: and_then_def assertUnlocked_unlocked)

lemmas method_defs = exec_def spawn_def say_def builtin_def reset_def env_def prepend_def
  prependExec_def prependSpawn_def prependSay_def

lemmas run_defs = fresh_task_def task_with_x_def new_Task_def no_props_def empty_store_def
  alloc_object_def alloc_array_def truthy_def array_push_def array_unshift_def
  steps_of_def env_of_def exec_step_def no_options_def

lemma fresh_task_unlocked: "\<not> locked (fst fresh_task)"
  by (simp add: run_defs)

lemma fresh_task_steps: "steps_of fresh_task = []"
  by (simp add: run_defs)

lemma task_with_x_unlocked: "\<not> locked (fst task_with_x)"
  by (simp add: run_defs exec_def and_then_def assertUnlocked_def)

lemma task_with_x_steps: "steps_of task_with_x = [exec_step ''x'' no_options]"
  by (simp add: run_defs exec_def and_then_def assertUnlocked_def)

lemma shift_all_empties: "shift_all a s = s\<lparr>arrays := (arrays s)(a := [])\<rparr>"
proof (induction a s rule: shift_all.induct)
  case (1 a s)
  show ?case
  proof (cases "arrays s a")
    case Nil
    then have "(arrays s)(a := []) = arrays s" by auto
    with Nil show ?thesis by (subst shift_all.simps) simp
  next
    case (Cons x xs)
    then have "shift_all a s = shift_all a (array_shift a s)"
      by (subst shift_all.simps) simp
    also have "\<dots> = (array_shift a s)\<lparr>arrays := (arrays (array_shift a s))(a := [])\<rparr>"
      using Cons by (intro "1.IH") simp
    also have "\<dots> = s\<lparr>arrays := (arrays s)(a := [])\<rparr>"
      by (simp add: array_shift_def)
    finally show ?thesis .
  qed
qed

lemma invoke_locked_stays: "locked (fst ts) \<Longrightarrow> locked (fst (snd (invoke c ts)))"
  by (cases c) (simp_all add: method_defs and_then_locked lock_def set_description_def steps_def split: prod.splits)

lemma invoke_all_locked_stays: "locked (fst ts) \<Longrightarrow> locked (fst (invoke_all cs ts))"
  by (induction cs arbitrary: ts) (simp_all add: invoke_locked_stays)

text \<open>
  C1. Once \<open>lock\<close> has been called on a task, and whatever calls have been made
  since, each of \<open>exec\<close>, \<open>spawn\<close>, \<open>say\<close>, \<open>builtin\<close>, \<open>reset\<close>,
  \<open>env\<close>, \<open>prepend\<close>, \<open>prependExec\<close>, \<open>prependSpawn\<close> and \<open>prependSay\<close>
  throws the error "Task ... is locked for changes" and leaves the task and the
  store, hence the steps, as they were.
\<close>
theorem lock_enforcement:
  assumes "ts = invoke_all cs (snd (lock ts0))"
    and "err = Threw (Error (locked_message (name (fst ts))))"
  shows "exec c opts ts = (err, ts) \<and> spawn sub opts ts = (err, ts)
    \<and> say msg opts ts = (err, ts) \<and> builtin b ts = (err, ts)
    \<and> reset command opts ts = (err, ts) \<and> env n v ts = (err, ts)
    \<and> prepend c opts ts = (err, ts) \<and> prependExec c opts ts = (err, ts)
    \<and> prependSpawn sub opts ts = (err, ts) \<and> prependSay msg opts ts = (err, ts)
    \<and> steps_of (snd (exec c opts ts)) = steps_of ts
    \<and> steps_of (snd (reset command opts ts)) = steps_of ts"
proof -
  have "locked (fst ts)"
    unfolding assms(1) by (rule invoke_all_locked_stays) (simp add: lock_def)
  then show ?thesis
    unfolding assms(2) by (simp add: method_defs and_then_locked)
qed

theorem lock_enforcement_witness:
  "exec ''a'' no_options (invoke_all [SetDescription None] (snd (lock task_with_x))) =
     (Threw (Error (locked_message ''t'')),
      invoke_all [SetDescription None] (snd (lock task_with_x)))
   \<and> steps_of (snd (reset None no_options
         (invoke_all [SetDescription None] (snd (lock task_with_x))))) =
       [exec_step ''x'' no_options]"
proof -
  have n: "name (fst (invoke_all [SetDescription None] (snd (lock task_with_x)))) = ''t''"
    by (simp add: run_defs exec_def and_then_def assertUnlocked_def set_description_def lock_def)
  have s: "steps_of (invoke_all [SetDescription None] (snd (lock task_with_x))) =
      [exec_step ''x'' no_options]"
    using task_with_x_steps by (simp add: set_description_def lock_def steps_of_def)
  from lock_enforcement [OF refl refl, of "''a''" no_options "[SetDescription None]" task_with_x
      _ _ _ None] n s
  show ?thesis by simp
qed

lemma push_steps_of:
  "steps_of (t, array_push (steps_ref t) x s) = steps_of (t, s) @ [x]"
  by (simp add: steps_of_def array_push_def)

lemma unshift_steps_of:
  "steps_of (t, array_unshift (steps_ref t) x s) = x # steps_of (t, s)"
  by (simp add: steps_of_def array_unshift_def)

lemma append_unlocked:
  assumes "\<not> locked (fst ts)"
  shows "exec c opts ts = (Returned (), (fst ts, array_push (steps_ref (fst ts)) (exec_step c opts) (snd ts)))"
    and "say msg opts ts = (Returned (), (fst ts, array_push (steps_ref (fst ts)) (say_step msg opts) (snd ts)))"
    and "spawn sub opts ts = (Returned (), (fst ts, array_push (steps_ref (fst ts)) (spawn_step (name sub) opts) (snd ts)))"
    and "builtin b ts = (Returned (), (fst ts, array_push (steps_ref (fst ts)) (builtin_step b) (snd ts)))"
  using assms by (simp_all add: method_defs and_then_unlocked split_beta)

lemma prepend_unlocked:
  assumes "\<not> locked (fst ts)"
  shows "prependExec c opts ts = (Returned (), (fst ts, array_unshift (steps_ref (fst ts)) (exec_step c opts) (snd ts)))"
    and "prepend c opts ts = (Returned (), (fst ts, array_unshift (steps_ref (fst ts)) (exec_step c opts) (snd ts)))"
    and "prependSay msg opts ts = (Returned (), (fst ts, array_unshift (steps_ref (fst ts)) (say_step msg opts) (snd ts)))"
    and "prependSpawn sub opts ts = (Returned (), (fst ts, array_unshift (steps_ref (fst ts)) (spawn_step (name sub) opts) (snd ts)))"
  using assms by (simp_all add: method_defs and_then_unlocked split_beta)

lemma env_unlocked:
  "\<not> locked (fst ts) \<Longrightarrow>
     env n v ts = (Returned (), (fst ts, object_set (env_ref (fst ts)) n v (snd ts)))"
  by (simp add: env_def and_then_unlocked split_beta)

lemma reset_unlocked:
  "\<not> locked (fst ts) \<Longrightarrow>
     reset command opts ts =
       (Returned (), (fst ts,
          (if truthy command
           then array_push (steps_ref (fst ts)) (exec_step (the command) opts)
                  (shift_all (steps_ref (fst ts)) (snd ts))
           else shift_all (steps_ref (fst ts)) (snd ts))))"
  by (simp add: reset_def and_then_unlocked split_beta Let_def append_unlocked)

text \<open>
  C2, amended. On an unlocked task whose steps are \<open>xs\<close>, \<open>exec a\<close> and then
  \<open>exec b\<close> give the steps \<open>xs\<close> followed by the two exec steps in that order,
  and \<open>prependExec c\<close> after them puts the exec step for \<open>c\<close> in front. On a
  task without steps that is \<open>[a, b]\<close> and then \<open>[c, a, b]\<close>.
\<close>
theorem order_preservation:
  "\<not> locked (fst ts) \<Longrightarrow>
     steps_of (snd (exec b ob (snd (exec a oa ts)))) =
       steps_of ts @ [exec_step a oa, exec_step b ob]
   \<and> steps_of (snd (prependExec c oc (snd (exec b ob (snd (exec a oa ts)))))) =
       exec_step c oc # steps_of ts @ [exec_step a oa, exec_step b ob]
   \<and> (steps_of ts = [] \<longrightarrow>
        steps_of (snd (exec b ob (snd (exec a oa ts)))) = [exec_step a oa, exec_step b ob]
      \<and> steps_of (snd (prependExec c oc (snd (exec b ob (snd (exec a oa ts)))))) =
          [exec_step c oc, exec_step a oa, exec_step b ob])"
  by (simp add: append_unlocked prepend_unlocked push_steps_of unshift_steps_of)

theorem order_preservation_witness:
  "\<not> locked (fst fresh_task) \<and>
   steps_of (snd (exec ''b'' no_options (snd (exec ''a'' no_options fresh_task)))) =
     [exec_step ''a'' no_options, exec_step ''b'' no_options] \<and>
   steps_of (snd (prependExec ''c'' no_options
       (snd (exec ''b'' no_options (snd (exec ''a'' no_options fresh_task)))))) =
     [exec_step ''c'' no_options, exec_step ''a'' no_options, exec_step ''b'' no_options]"
proof -
  have u: "\<not> locked (fst fresh_task)" by (simp add: run_defs)
  have e: "steps_of fresh_task = []" by (simp add: run_defs)
  from order_preservation [OF u, of "''b''" no_options "''a''" no_options "''c''" no_options] e u
  show ?thesis by simp
qed

theorem order_preservation_counterexample:
  "\<not> locked (fst task_with_x) \<and>
   steps_of (snd (exec ''b'' no_options (snd (exec ''a'' no_options task_with_x)))) \<noteq>
     [exec_step ''a'' no_options, exec_step ''b'' no_options]"
proof -
  have u: "\<not> locked (fst task_with_x)"
    by (simp add: run_defs exec_def and_then_def assertUnlocked_def)
  have "steps_of task_with_x = [exec_step ''x'' no_options]"
    by (simp add: run_defs exec_def and_then_def assertUnlocked_def)
  with u show ?thesis
    by (simp add: append_unlocked push_steps_of)
qed

lemma shift_all_steps_of: "steps_of (t, shift_all (steps_ref t) s) = []"
  by (simp add: shift_all_empties steps_of_def)

text \<open>
  C5, amended. On an unlocked task \<open>reset\<close> returns, and it leaves exactly one
  step, the exec step for the command with the given options, when the command
  is given and not the empty string; with no command or the empty string it
  leaves no step. The steps the task had before play no part.
\<close>
theorem reset_steps:
  "\<not> locked (fst ts) \<Longrightarrow>
     fst (reset command opts ts) = Returned ()
   \<and> steps_of (snd (reset command opts ts)) =
       (if truthy command then [exec_step (the command) opts] else [])"
  by (simp add: reset_unlocked push_steps_of shift_all_steps_of)

theorem reset_steps_witness:
  "\<not> locked (fst task_with_x)
   \<and> steps_of (snd (reset (Some ''y'') no_options task_with_x)) = [exec_step ''y'' no_options]
   \<and> steps_of (snd (reset None no_options task_with_x)) = []"
  using reset_steps [OF task_with_x_unlocked, of "Some ''y''" no_options]
    reset_steps [OF task_with_x_unlocked, of None no_options] task_with_x_unlocked
  by (simp add: truthy_def)

theorem reset_steps_counterexample:
  "\<not> locked (fst task_with_x)
   \<and> steps_of (snd (reset (Some '''') no_options task_with_x)) \<noteq> [exec_step '''' no_options]"
  using task_with_x_unlocked
  by (simp add: reset_unlocked shift_all_steps_of truthy_def)




text \<open>
  C8, amended. On an unlocked task \<open>spawn sub opts\<close> returns and appends exactly
  one step, whose \<open>spawn\<close> property is the string \<open>sub.name\<close>, and
  \<open>prependSpawn sub opts\<close> returns and puts that step in front.
\<close>
theorem spawn_records_name:
  "\<not> locked (fst ts) \<Longrightarrow>
     fst (spawn sub opts ts) = Returned ()
   \<and> steps_of (snd (spawn sub opts ts)) = steps_of ts @ [spawn_step (name sub) opts]
   \<and> fst (prependSpawn sub opts ts) = Returned ()
   \<and> steps_of (snd (prependSpawn sub opts ts)) = spawn_step (name sub) opts # steps_of ts
   \<and> step_spawn (spawn_step (name sub) opts) = Some (name sub)"
  by (simp add: append_unlocked prepend_unlocked push_steps_of unshift_steps_of spawn_step_def)

theorem spawn_records_name_witness:
  "\<not> locked (fst task_with_x)
   \<and> steps_of (snd (spawn (fst fresh_task) no_options task_with_x)) =
       [exec_step ''x'' no_options, spawn_step ''t'' no_options]
   \<and> steps_of (snd (prependSpawn (fst fresh_task) no_options task_with_x)) =
       [spawn_step ''t'' no_options, exec_step ''x'' no_options]"
proof -
  have n: "name (fst fresh_task) = ''t''" by (simp add: run_defs)
  from spawn_records_name [OF task_with_x_unlocked, of "fst fresh_task" no_options]
    task_with_x_unlocked task_with_x_steps n
  show ?thesis by simp
qed

theorem spawn_records_name_counterexample:
  "locked (fst (snd (lock fresh_task)))
   \<and> steps_of (snd (spawn (fst fresh_task) no_options (snd (lock fresh_task)))) \<noteq>
       steps_of (snd (lock fresh_task)) @ [spawn_step (name (fst fresh_task)) no_options]"
  by (simp add: spawn_def and_then_locked lock_def)

text \<open>
  C10. After \<open>lock\<close>, and whatever calls have been made since, assigning the
  description returns without an error; the getter and the description of the
  rendered spec then give the assigned value, and the task is still locked.
\<close>
theorem description_not_locked:
  "set_description d (invoke_all cs (snd (lock ts))) =
     (Returned (), snd (set_description d (invoke_all cs (snd (lock ts)))))
   \<and> get_description (snd (set_description d (invoke_all cs (snd (lock ts))))) = d
   \<and> spec_description (renderSpec (snd (set_description d (invoke_all cs (snd (lock ts)))))) = d
   \<and> locked (fst (snd (set_description d (invoke_all cs (snd (lock ts))))))"
proof -
  have "locked (fst (invoke_all cs (snd (lock ts))))"
    by (rule invoke_all_locked_stays) (simp add: lock_def)
  then show ?thesis
    by (simp add: set_description_def get_description_def renderSpec_def)
qed

theorem description_not_locked_witness:
  "get_description (snd (set_description (Some ''d'')
       (invoke_all [Exec ''a'' no_options] (snd (lock fresh_task))))) = Some ''d''
   \<and> spec_description (renderSpec (snd (set_description (Some ''d'')
       (invoke_all [Exec ''a'' no_options] (snd (lock fresh_task)))))) = Some ''d''"
  using description_not_locked [of "Some ''d''" "[Exec ''a'' no_options]" fresh_task]
  by simp

text \<open>
  C3, amended. The rendered spec holds the task's own step array and environment
  object. After \<open>exec c\<close> on the unlocked task the array that \<open>s.steps\<close> refers
  to holds the former steps followed by the exec step for \<open>c\<close>, and after
  \<open>env n v\<close>, for a name \<open>n\<close> other than \<open>__proto__\<close>, the object that
  \<open>s.env\<close> refers to maps \<open>n\<close> to \<open>v\<close>; rendering again gives the same
  spec.
\<close>
theorem rendered_spec_shares:
  "\<not> locked (fst ts) \<Longrightarrow>
     arrays (snd (snd (exec c opts ts))) (spec_steps (renderSpec ts)) =
       arrays (snd ts) (spec_steps (renderSpec ts)) @ [exec_step c opts]
   \<and> (n \<noteq> ''__proto__'' \<longrightarrow>
        objects (snd (snd (env n v ts))) (spec_env (renderSpec ts)) =
          (objects (snd ts) (spec_env (renderSpec ts)))(n \<mapsto> v))
   \<and> renderSpec (snd (exec c opts ts)) = renderSpec ts
   \<and> renderSpec (snd (env n v ts)) = renderSpec ts"
  by (simp add: append_unlocked env_unlocked renderSpec_def array_push_def object_set_def
      get_description_def)

theorem rendered_spec_shares_witness:
  "\<not> locked (fst fresh_task) \<and> ''A'' \<noteq> ''__proto__''
   \<and> arrays (snd (snd (exec ''c'' no_options fresh_task))) (spec_steps (renderSpec fresh_task)) =
       [exec_step ''c'' no_options]
   \<and> objects (snd (snd (env ''A'' ''1'' fresh_task))) (spec_env (renderSpec fresh_task)) ''A'' =
       Some ''1''"
proof -
  have "arrays (snd fresh_task) (spec_steps (renderSpec fresh_task)) = []"
    by (simp add: run_defs renderSpec_def)
  moreover have "''A'' \<noteq> ''__proto__''" by simp
  ultimately show ?thesis
    using rendered_spec_shares [OF fresh_task_unlocked, of "''c''" no_options "''A''" "''1''"]
      fresh_task_unlocked
    by simp
qed

theorem rendered_spec_immutable_counterexample:
  "\<not> locked (fst fresh_task)
   \<and> arrays (snd (snd (exec ''c'' no_options fresh_task))) (spec_steps (renderSpec fresh_task)) \<noteq>
       arrays (snd fresh_task) (spec_steps (renderSpec fresh_task))
   \<and> objects (snd (snd (env ''A'' ''1'' fresh_task))) (spec_env (renderSpec fresh_task)) \<noteq>
       objects (snd fresh_task) (spec_env (renderSpec fresh_task))"
proof -
  have "objects (snd fresh_task) (spec_env (renderSpec fresh_task)) ''A'' = None"
    by (simp add: run_defs renderSpec_def)
  moreover have "objects (snd (snd (env ''A'' ''1'' fresh_task))) (spec_env (renderSpec fresh_task)) ''A''
      = Some ''1''"
    using fresh_task_unlocked by (simp add: env_unlocked renderSpec_def object_set_def)
  ultimately have "objects (snd (snd (env ''A'' ''1'' fresh_task))) (spec_env (renderSpec fresh_task)) \<noteq>
       objects (snd fresh_task) (spec_env (renderSpec fresh_task))"
    by (metis option.distinct(1))
  then show ?thesis
    using fresh_task_unlocked
    by (simp add: append_unlocked renderSpec_def array_push_def)
qed

lemma invoke_task:
  "fst (snd (invoke c ts)) =
     (case c of Lock \<Rightarrow> (fst ts)\<lparr>locked := True\<rparr>
              | SetDescription d \<Rightarrow> (fst ts)\<lparr>description := d\<rparr>
              | _ \<Rightarrow> fst ts)"
proof (cases "locked (fst ts)")
  case True
  then show ?thesis
    by (cases c) (simp_all add: method_defs and_then_locked lock_def set_description_def steps_def split_beta)
next
  case False
  then show ?thesis
    by (cases c)
      (simp_all add: append_unlocked prepend_unlocked env_unlocked reset_unlocked lock_def
        set_description_def steps_def split_beta)
qed

lemma invoke_next_ref: "next_ref (snd ts) \<le> next_ref (snd (snd (invoke c ts)))"
proof (cases "locked (fst ts)")
  case True
  then show ?thesis
    by (cases c)
      (simp_all add: method_defs and_then_locked lock_def set_description_def steps_def alloc_array_def)
next
  case False
  then show ?thesis
    by (cases c)
      (simp_all add: append_unlocked prepend_unlocked env_unlocked reset_unlocked lock_def
        set_description_def steps_def alloc_array_def array_push_def array_unshift_def
        object_set_def shift_all_empties)
qed

lemma invoke_allocated: "allocated ts \<Longrightarrow> allocated (snd (invoke c ts))"
proof -
  assume a: "allocated ts"
  have r: "steps_ref (fst (snd (invoke c ts))) = steps_ref (fst ts)"
    "env_ref (fst (snd (invoke c ts))) = env_ref (fst ts)"
    by (simp_all add: invoke_task split: call.splits)
  from a invoke_next_ref [of ts c] show ?thesis
    unfolding allocated_def r by linarith
qed

lemma invoke_all_allocated: "allocated ts \<Longrightarrow> allocated (invoke_all cs ts)"
  by (induction cs arbitrary: ts) (simp_all add: invoke_allocated)

lemma new_Task_state:
  "snd (new_Task n props s) =
     (\<lparr>name = n, condition = opt_condition props,
       steps_ref = (case opt_env props of Some r \<Rightarrow> next_ref s | None \<Rightarrow> Suc (next_ref s)),
       env_ref = (case opt_env props of Some r \<Rightarrow> r | None \<Rightarrow> next_ref s),
       cwd = opt_cwd props, requiredEnv = opt_requiredEnv props, locked = False,
       description = opt_description props\<rparr>,
      snd (snd (new_Task n props s)))"
  by (cases "opt_env props")
    (simp_all add: new_Task_def alloc_object_def alloc_array_def append_unlocked Let_def)

lemma new_Task_next_ref:
  "next_ref (snd (snd (new_Task n props s))) =
     (case opt_env props of Some r \<Rightarrow> Suc (next_ref s) | None \<Rightarrow> Suc (Suc (next_ref s)))"
  by (cases "opt_env props")
    (simp_all add: new_Task_def alloc_object_def alloc_array_def append_unlocked Let_def
      array_push_def)

lemma new_Task_returns: "fst (new_Task n props s) = Returned ()"
  by (cases "opt_env props")
    (simp_all add: new_Task_def alloc_object_def alloc_array_def append_unlocked Let_def)

lemma new_Task_allocated:
  "props_allocated props s \<Longrightarrow> allocated (snd (new_Task n props s))"
  unfolding allocated_def props_allocated_def
  by (subst (1 2) new_Task_state) (auto simp: new_Task_next_ref split: option.splits)

lemma invoke_fields:
  "name (fst (snd (invoke c ts))) = name (fst ts)"
  "condition (fst (snd (invoke c ts))) = condition (fst ts)"
  "steps_ref (fst (snd (invoke c ts))) = steps_ref (fst ts)"
  "env_ref (fst (snd (invoke c ts))) = env_ref (fst ts)"
  "cwd (fst (snd (invoke c ts))) = cwd (fst ts)"
  "requiredEnv (fst (snd (invoke c ts))) = requiredEnv (fst ts)"
  by (simp_all add: invoke_task split: call.splits)

lemma invoke_all_fields:
  "name (fst (invoke_all cs ts)) = name (fst ts)
   \<and> condition (fst (invoke_all cs ts)) = condition (fst ts)
   \<and> steps_ref (fst (invoke_all cs ts)) = steps_ref (fst ts)
   \<and> env_ref (fst (invoke_all cs ts)) = env_ref (fst ts)
   \<and> cwd (fst (invoke_all cs ts)) = cwd (fst ts)
   \<and> requiredEnv (fst (invoke_all cs ts)) = requiredEnv (fst ts)"
  by (induction cs arbitrary: ts) (simp_all add: invoke_fields)

lemma invoke_description:
  "description (fst (snd (invoke c ts))) = last_description (description (fst ts)) [c]"
  unfolding invoke_task by (cases c) simp_all

lemma last_description_Cons:
  "last_description d (c # cs) = last_description (last_description d [c]) cs"
  by (cases c) simp_all

lemma invoke_all_description:
  "description (fst (invoke_all cs ts)) = last_description (description (fst ts)) cs"
proof (induction cs arbitrary: ts)
  case Nil
  show ?case by simp
next
  case (Cons c cs)
  have "description (fst (invoke_all (c # cs) ts)) =
      last_description (description (fst (snd (invoke c ts)))) cs"
    by (simp add: Cons.IH)
  also have "\<dots> = last_description (description (fst ts)) (c # cs)"
    unfolding invoke_description by (rule last_description_Cons [symmetric])
  finally show ?case .
qed

text \<open>
  C4, amended. For a task constructed with a name and \<open>props\<close>, after any calls,
  the rendered spec has the seven fields \<open>name\<close>, \<open>description\<close>, \<open>env\<close>,
  \<open>requiredEnv\<close>, \<open>steps\<close>, \<open>condition\<close> and \<open>cwd\<close>: the name,
  \<open>requiredEnv\<close>, \<open>condition\<close> and \<open>cwd\<close> are those given at construction,
  \<open>steps\<close> and \<open>env\<close> are the task's step array and environment object, and
  the description is the one last assigned through the setter, or the one given
  at construction when none has been assigned.
\<close>
theorem renderSpec_fields:
  "renderSpec (invoke_all cs (snd (new_Task n props s))) =
     \<lparr>spec_name = n,
      spec_description = last_description (opt_description props) cs,
      spec_env = env_ref (fst (invoke_all cs (snd (new_Task n props s)))),
      spec_requiredEnv = opt_requiredEnv props,
      spec_steps = steps_ref (fst (invoke_all cs (snd (new_Task n props s)))),
      spec_condition = opt_condition props,
      spec_cwd = opt_cwd props\<rparr>
   \<and> last_description (opt_description props) [] = opt_description props"
proof -
  let ?ts = "snd (new_Task n props s)"
  have t: "name (fst ?ts) = n" "condition (fst ?ts) = opt_condition props"
    "cwd (fst ?ts) = opt_cwd props" "requiredEnv (fst ?ts) = opt_requiredEnv props"
    "description (fst ?ts) = opt_description props"
    by (subst new_Task_state, simp)+
  show ?thesis
    by (simp add: renderSpec_def get_description_def invoke_all_fields invoke_all_description t)
qed

theorem renderSpec_fields_witness:
  "spec_name (renderSpec (invoke_all [SetDescription (Some ''b''), Exec ''c'' no_options]
       (snd (new_Task ''t'' (no_props\<lparr>opt_description := Some ''a''\<rparr>) empty_store)))) = ''t''
   \<and> spec_description (renderSpec (invoke_all [SetDescription (Some ''b''), Exec ''c'' no_options]
       (snd (new_Task ''t'' (no_props\<lparr>opt_description := Some ''a''\<rparr>) empty_store)))) =
       Some ''b''"
  using renderSpec_fields [of "[SetDescription (Some ''b''), Exec ''c'' no_options]" "''t''"
      "no_props\<lparr>opt_description := Some ''a''\<rparr>" empty_store]
  by simp

theorem renderSpec_description_counterexample:
  "spec_description (renderSpec (snd (set_description (Some ''b'')
       (snd (new_Task ''t'' (no_props\<lparr>opt_description := Some ''a''\<rparr>) empty_store))))) \<noteq>
     opt_description (no_props\<lparr>opt_description := Some ''a''\<rparr>)"
  by (simp add: renderSpec_def get_description_def set_description_def)

text \<open>
  C9. For a task constructed in a store that holds the object \<open>props.env\<close> refers
  to, after any calls: the array the getter \<open>steps\<close> returns holds the task's
  steps, and whatever a client does to that array, the task's steps are the same
  afterwards, whether read through the getter again or through the rendered spec.
\<close>
theorem steps_getter_copy:
  "props_allocated props s0 \<Longrightarrow> ts = invoke_all cs (snd (new_Task n props s0)) \<Longrightarrow>
     arrays (snd (snd (steps ts))) (fst (steps ts)) = steps_of ts
   \<and> steps_of (mutate_array (fst (steps ts)) f (snd (steps ts))) = steps_of ts
   \<and> arrays (snd (snd (steps (mutate_array (fst (steps ts)) f (snd (steps ts))))))
        (fst (steps (mutate_array (fst (steps ts)) f (snd (steps ts))))) = steps_of ts
   \<and> arrays (snd (mutate_array (fst (steps ts)) f (snd (steps ts))))
        (spec_steps (renderSpec (mutate_array (fst (steps ts)) f (snd (steps ts))))) = steps_of ts"
proof -
  assume p: "props_allocated props s0" and ts: "ts = invoke_all cs (snd (new_Task n props s0))"
  have "allocated ts"
    unfolding ts by (intro invoke_all_allocated new_Task_allocated p)
  then have ne: "steps_ref (fst ts) \<noteq> next_ref (snd ts)"
    by (simp add: allocated_def)
  have 1: "fst (steps ts) = next_ref (snd ts)"
    by (simp add: steps_def alloc_array_def)
  have 2: "arrays (snd (snd (steps ts))) (fst (steps ts)) = steps_of ts"
    by (simp add: steps_def alloc_array_def steps_of_def)
  have 3: "steps_of (mutate_array (fst (steps ts)) f (snd (steps ts))) = steps_of ts"
    using ne by (simp add: steps_def alloc_array_def steps_of_def mutate_array_def)
  have 4: "arrays (snd (snd (steps ts'))) (fst (steps ts')) = steps_of ts'" for ts'
    by (simp add: steps_def alloc_array_def steps_of_def)
  have 5: "arrays (snd ts') (spec_steps (renderSpec ts')) = steps_of ts'" for ts'
    by (simp add: renderSpec_def steps_of_def)
  show ?thesis
    by (simp only: 2 3 4 5)
qed

theorem steps_getter_copy_witness:
  "props_allocated (no_props\<lparr>opt_exec := Some ''x''\<rparr>) empty_store
   \<and> steps_of (mutate_array (fst (steps task_with_x)) tl (snd (steps task_with_x))) =
       [exec_step ''x'' no_options]
   \<and> arrays (snd (mutate_array (fst (steps task_with_x)) tl (snd (steps task_with_x))))
        (fst (steps task_with_x)) = []"
proof -
  have p: "props_allocated (no_props\<lparr>opt_exec := Some ''x''\<rparr>) empty_store"
    by (simp add: props_allocated_def no_props_def)
  have t: "task_with_x =
      invoke_all [] (snd (new_Task ''t'' (no_props\<lparr>opt_exec := Some ''x''\<rparr>) empty_store))"
    by (simp add: task_with_x_def)
  have m: "arrays (snd (mutate_array (fst (steps task_with_x)) tl (snd (steps task_with_x))))
        (fst (steps task_with_x)) = tl (steps_of task_with_x)"
    by (simp add: mutate_array_def steps_def alloc_array_def steps_of_def)
  from steps_getter_copy [OF p t, of tl] p m task_with_x_steps
  show ?thesis by simp
qed

section \<open>Properties of the inspection\<close>

lemma after_Some: "after pre r = Some res \<longleftrightarrow> (\<exists>tr e. r = Some (tr, e) \<and> res = (pre @ tr, e))"
  by (auto simp: after_def split: option.splits)

lemma after_None: "after pre r = None \<longleftrightarrow> r = None"
  by (simp add: after_def split: option.splits)





lemma for_steps_read_only:
  "for_steps ch rec indent xs = Some (tr, e) \<Longrightarrow>
   (\<And>n i tr' e'. rec n i = Some (tr', e') \<Longrightarrow> list_all read_only tr') \<Longrightarrow>
   list_all read_only tr"
proof (induction xs arbitrary: tr e)
  case Nil
  then show ?case by simp
next
  case (Cons step rest)
  show ?case
  proof (cases "truthy (step_spawn step)")
    case True
    then obtain tr1 e1 where r: "rec (the (step_spawn step)) (indent + 2) = Some (tr1, e1)"
      using Cons.prems(1) by (auto split: option.splits)
    then have ro: "list_all read_only tr1"
      by (rule Cons.prems(2))
    show ?thesis
    proof (cases e1)
      case None
      with True r Cons.prems(1) obtain tr2 where
        "for_steps ch rec indent rest = Some (tr2, e)"
        "tr = (writeln indent (''- '' @ bold ch (the (step_spawn step))) # tr1) @ tr2"
        by (auto simp: after_Some)
      with ro Cons.IH Cons.prems(2) show ?thesis
        by (auto simp: writeln_def)
    next
      case (Some err)
      with True r ro Cons.prems(1) show ?thesis by (auto simp: writeln_def)
    qed
  next
    case False
    with Cons.prems(1) Cons.IH Cons.prems(2) show ?thesis
      by (auto simp: after_Some writeln_def split: if_splits)
  qed
qed

lemma header_read_only:
  "list_all read_only (TryFindTask n # description_lines ch i task @ env_lines ch i task)"
  by (auto simp: description_lines_def env_lines_def writeln_def list_all_iff)

lemma inspectTask_read_only:
  "inspectTask ch m fuel n i = Some (tr, e) \<Longrightarrow> list_all read_only tr"
proof (induction fuel arbitrary: n i tr e)
  case 0
  then show ?case by simp
next
  case (Suc fuel)
  show ?case
  proof (cases "tryFindTask m n")
    case None
    with Suc.prems show ?thesis by auto
  next
    case (Some task)
    with Suc.prems obtain tr2 where
      f: "for_steps ch (inspectTask ch m fuel) i (case spec_steps task of None \<Rightarrow> [] | Some xs \<Rightarrow> xs)
            = Some (tr2, e)"
      and tr: "tr = (TryFindTask n # description_lines ch i task @ env_lines ch i task) @ tr2"
      by (auto simp: after_Some)
    have "list_all read_only tr2"
      using f by (rule for_steps_read_only) (rule Suc.IH)
    with header_read_only [of n ch i task] show ?thesis
      unfolding tr by simp
  qed
qed








lemma visited_steps_all:
  "dropWhile (\<lambda>step. step_error rec indent step = None) xs = [] \<Longrightarrow>
     visited_steps rec indent xs = xs"
proof -
  assume d: "dropWhile (\<lambda>step. step_error rec indent step = None) xs = []"
  have "takeWhile (\<lambda>step. step_error rec indent step = None) xs @
      dropWhile (\<lambda>step. step_error rec indent step = None) xs = xs"
    by (rule takeWhile_dropWhile_id)
  then have "takeWhile (\<lambda>step. step_error rec indent step = None) xs = xs"
    unfolding d by simp
  then show ?thesis
    unfolding visited_steps_def d by simp
qed












text \<open>
  When \<open>sub\<close> is missing the inspection throws at its lookup and \<open>post\<close> is
  not reached.
\<close>

lemma broken_manifest_inspect:
  "inspectTask plain_chalk broken_manifest 2 ''build'' 0 =
     Some ([TryFindTask ''build'', ConsoleLog ''- exec: echo step1'',
            ConsoleLog ''- sub'', TryFindTask ''sub''],
           Some (Error (unresolved_message ''sub'')))"
  by (simp add: numeral_2_eq_2 tryFindTask_def broken_manifest_def manifest_entry_def
      exec_step_def spawn_step_def builtin_step_def no_options_def truthy_def plain_chalk_def
      after_def description_lines_def env_lines_def writeln_def)

text \<open>On a manifest with a cycle the inspection does not end, whatever the fuel.\<close>

lemma loop_manifest_diverges: "inspectTask ch loop_manifest fuel ''a'' i = None"
proof (induction fuel arbitrary: i)
  case 0
  show ?case by simp
next
  case (Suc fuel)
  then show ?case
    by (simp add: tryFindTask_def loop_manifest_def manifest_entry_def spawn_step_def
        no_options_def truthy_def after_def)
qed

text \<open>With \<open>--inspect\<close> the command handler only inspects; without, it runs the task.\<close>

lemma taskCommandHandler_inspect:
  "taskCommandHandler ch m runTask fuel n True = Some (tr, e) \<Longrightarrow> list_all read_only tr"
  by (simp add: taskCommandHandler_def inspectTask_read_only del: inspectTask.simps)

lemma taskCommandHandler_run:
  "\<exists>tr. taskCommandHandler ch m runTask fuel n False = Some (RunTask n # tr, None)"
  by (simp add: taskCommandHandler_def split: option.splits js_error.splits)

end
